theory Spec2Isabelle
  imports Main
begin

section \<open>The connection of package ws: data model\<close>

text \<open>
  The source is one Go file of package \<^verbatim>\<open>ws\<close>: the type \<^verbatim>\<open>Conn\<close>, its two pumps,
  the handshake decoder \<^verbatim>\<open>processMessage\<close> and \<^verbatim>\<open>Close\<close>. A Go operation either
  completes, panics (send on or close of a closed channel, index out of range) or blocks
  (send on a full channel); the three outcomes are values.
\<close>

datatype 'a outcome = Done 'a | Panic | Blocked

definition andThen :: "'a outcome \<Rightarrow> ('a \<Rightarrow> 'b outcome) \<Rightarrow> 'b outcome" where
  "andThen m f = (case m of Done x \<Rightarrow> f x | Panic \<Rightarrow> Panic | Blocked \<Rightarrow> Blocked)"

text \<open>The handshake states, in the order of the \<^verbatim>\<open>iota\<close> block. The decoder and
  \<^verbatim>\<open>Close\<close> name them through package model, which declares the device; they are the
  same three names.\<close>

datatype State = StatePendingHello | StatePendingOwner | StateConnected

text \<open>\<^verbatim>\<open>State\<close> is an \<^verbatim>\<open>int\<close>; the constants count from zero.\<close>

fun State_int :: "State \<Rightarrow> int" where
  "State_int StatePendingHello = 0"
| "State_int StatePendingOwner = 1"
| "State_int StateConnected = 2"

subsection \<open>Constants\<close>

text \<open>\<^verbatim>\<open>time.Duration\<close> counts nanoseconds; \<^verbatim>\<open>time.Second\<close> is \<open>10^9\<close> of them.
  Go evaluates constant expressions exactly, so the integers are unbounded here and the
  division is the integer division of the constant expression.\<close>

definition Second :: int where
  "Second = 1000000000"

definition queueSize :: nat where
  "queueSize = 16"

definition writeWait :: int where
  "writeWait = 30 * Second"

definition pongWait :: int where
  "pongWait = 60 * Second"

definition pingPeriod :: int where
  "pingPeriod = (pongWait * 7) div 10"

definition maxMessageSize :: int where
  "maxMessageSize = 512"

text \<open>\<^verbatim>\<open>time.NewTicker(d)\<close> started at instant \<open>s\<close> delivers its \<open>k\<close>-th tick
  (\<open>k = 1, 2, ...\<close>) at \<open>s + k * d\<close>; \<^verbatim>\<open>writePump\<close> creates its ticker with
  \<^verbatim>\<open>pingPeriod\<close> and sends one ping per tick.\<close>

definition tickTime :: "int \<Rightarrow> nat \<Rightarrow> int" where
  "tickTime s k = s + int k * pingPeriod"

text \<open>Modelled from the spec: the command words \<^verbatim>\<open>model.RespHello\<close>,
  \<^verbatim>\<open>model.RespOwner\<close>, \<^verbatim>\<open>model.RespName\<close> and \<^verbatim>\<open>model.RespBye\<close> are declared in
  package model, outside the files at hand; the wire protocol of the specification gives
  them as \<^verbatim>\<open>HELLO\<close>, \<^verbatim>\<open>OWNER\<close>, \<^verbatim>\<open>NAME\<close> and \<^verbatim>\<open>BYE\<close>.\<close>

definition RespHello :: string where
  "RespHello = ''HELLO''"

definition RespOwner :: string where
  "RespOwner = ''OWNER''"

definition RespName :: string where
  "RespName = ''NAME''"

definition RespBye :: string where
  "RespBye = ''BYE''"

subsection \<open>Records\<close>

text \<open>\<^verbatim>\<open>model.Device\<close>, with the fields the connection reads and writes (the field
  \<^verbatim>\<open>Id\<close> is written \<open>Id'\<close>). A Go string is a byte sequence and so is a HOL string;
  the zero value of a string field is the empty string.\<close>

record Device =
  State :: State
  Id' :: string
  Owner :: string
  Name :: string
  LastSeen :: int

text \<open>A buffered channel of messages: whether it has been closed, and its buffer, oldest
  element first. The capacity is \<^verbatim>\<open>queueSize\<close> for both channels of a connection.\<close>

record chan =
  chClosed :: bool
  chBuf :: "string list"

definition make_chan :: chan where
  "make_chan = \<lparr>chClosed = False, chBuf = []\<rparr>"

definition chan_close :: "chan \<Rightarrow> chan outcome" where
  "chan_close ch = (if chClosed ch then Panic else Done (ch\<lparr>chClosed := True\<rparr>))"

definition chan_send :: "chan \<Rightarrow> string \<Rightarrow> chan outcome" where
  "chan_send ch v =
     (if chClosed ch then Panic
      else if length (chBuf ch) < queueSize then Done (ch\<lparr>chBuf := chBuf ch @ [v]\<rparr>)
      else Blocked)"

text \<open>A receive by a consumer of the channel: the oldest buffered element if there is one;
  on an empty closed channel the receive returns at once with the zero value, on an empty
  open channel it blocks.\<close>

definition chan_recv :: "chan \<Rightarrow> chan outcome" where
  "chan_recv ch =
     (case chBuf ch of
        [] \<Rightarrow> (if chClosed ch then Done ch else Blocked)
      | v # vs \<Rightarrow> Done (ch\<lparr>chBuf := vs\<rparr>))"

text \<open>The websocket, as far as the connection drives it: the read limit and the read
  deadline it was given last (\<open>None\<close>: never set), and how often \<^verbatim>\<open>Close\<close> was called
  on it. Instants are nanoseconds since the epoch.\<close>

record wsconn =
  readLimit :: int
  readDeadline :: "int option"
  closeCalls :: nat

definition SetReadLimit :: "int \<Rightarrow> wsconn \<Rightarrow> wsconn" where
  "SetReadLimit n w = w\<lparr>readLimit := n\<rparr>"

definition SetReadDeadline :: "int \<Rightarrow> wsconn \<Rightarrow> wsconn" where
  "SetReadDeadline t w = w\<lparr>readDeadline := Some t\<rparr>"

definition ws_Close :: "wsconn \<Rightarrow> wsconn" where
  "ws_Close w = w\<lparr>closeCalls := Suc (closeCalls w)\<rparr>"

text \<open>Modelled from the spec: the type \<^verbatim>\<open>Hub\<close> is declared outside the files at hand.
  The connection only sends itself on the hub's \<^verbatim>\<open>register\<close> and \<^verbatim>\<open>unregister\<close>
  channels, and the specification makes both hand-offs non-blocking; the hub is the
  sequence of hand-offs this connection has made, oldest first.\<close>

datatype handoff = Register | Unregister

text \<open>The connection. The mutex \<^verbatim>\<open>mx\<close> has no field: a section of code that holds it
  is one atomic step of the model.\<close>

record Conn =
  hub :: "handoff list"
  ws :: wsconn
  Send :: chan
  Recv :: chan
  Device :: Device
  closed :: bool

text \<open>The connection that \<^verbatim>\<open>GenWSHandler\<close> builds after a successful upgrade.\<close>

definition newConn :: Conn where
  "newConn =
     \<lparr>hub = [],
      ws = \<lparr>readLimit = 0, readDeadline = None, closeCalls = 0\<rparr>,
      Send = make_chan,
      Recv = make_chan,
      Device = \<lparr>State = StatePendingHello, Id' = [], Owner = [], Name = [], LastSeen = 0\<rparr>,
      closed = False\<rparr>"

section \<open>String functions of the Go library\<close>

text \<open>\<^verbatim>\<open>strings.Split(s, sep)\<close> for a separator of one byte: \<open>s\<close> is cut at every
  occurrence of the separator, so the result has one more element than \<open>s\<close> has
  separators, and is never empty.\<close>

fun Split :: "string \<Rightarrow> char \<Rightarrow> string list" where
  "Split [] sep = [[]]"
| "Split (x # xs) sep =
     (if x = sep then [] # Split xs sep
      else (x # hd (Split xs sep)) # tl (Split xs sep))"

text \<open>\<^verbatim>\<open>strings.SplitN(s, sep, n)\<close> for a separator of one byte and \<open>n \<ge> 0\<close>: at most
  \<open>n\<close> pieces, the last one the unsplit rest.\<close>

fun SplitN :: "string \<Rightarrow> char \<Rightarrow> nat \<Rightarrow> string list" where
  "SplitN s sep 0 = []"
| "SplitN s sep (Suc 0) = [s]"
| "SplitN s sep (Suc (Suc n)) =
     (if sep \<in> set s
      then takeWhile (\<lambda>x. x \<noteq> sep) s # SplitN (tl (dropWhile (\<lambda>x. x \<noteq> sep) s)) sep (Suc n)
      else [s])"

text \<open>\<^verbatim>\<open>strings.Trim(s, cutset)\<close>: the bytes of the cutset are removed from both ends.\<close>

definition Trim :: "string \<Rightarrow> string \<Rightarrow> string" where
  "Trim s cutset =
     rev (dropWhile (\<lambda>x. x \<in> set cutset) (rev (dropWhile (\<lambda>x. x \<in> set cutset) s)))"

text \<open>The four bytes of the cutsets: space, \<^verbatim>\<open>\t\<close>, \<^verbatim>\<open>\r\<close> and \<^verbatim>\<open>\n\<close>.\<close>

definition SP :: char where
  "SP = CHR '' ''"

definition TAB :: char where
  "TAB = CHR 0x09"

definition CR :: char where
  "CR = CHR 0x0D"

definition LF :: char where
  "LF = CHR 0x0A"

text \<open>Indexing a slice panics out of range.\<close>

definition index :: "'a list \<Rightarrow> nat \<Rightarrow> 'a outcome" where
  "index xs i = (if i < length xs then Done (xs ! i) else Panic)"

text \<open>\<^verbatim>\<open>time.Now().Unix()\<close> for the instant \<open>t\<close>: whole seconds.\<close>

definition Unix :: "int \<Rightarrow> int" where
  "Unix t = t div Second"

section \<open>The operations of a connection\<close>

subsection \<open>Close\<close>

text \<open>The whole body runs under the mutex. A panic inside it ends the program.\<close>

definition Close :: "Conn \<Rightarrow> Conn outcome" where
  "Close c =
     (if \<not> closed c then
        let c1 = c\<lparr>closed := True\<rparr> in
        andThen (chan_close (Send c1)) (\<lambda>s.
        let c2 = c1\<lparr>Send := s\<rparr> in
        andThen (chan_close (Recv c2)) (\<lambda>r.
        let c3 = c2\<lparr>Recv := r\<rparr>;
            c4 = c3\<lparr>ws := ws_Close (ws c3)\<rparr>
        in if State (Device c4) = StateConnected
           then Done (c4\<lparr>hub := hub c4 @ [Unregister]\<rparr>)
           else Done c4))
      else Done c)"

subsection \<open>processMessage\<close>

text \<open>The message is split at every space; the command is the first piece with tabs,
  carriage returns and line feeds trimmed. The log line of the default case has no effect
  on the connection.\<close>

definition processMessage :: "string \<Rightarrow> Conn \<Rightarrow> Conn outcome" where
  "processMessage message c =
     (let msg = message;
          ss = Split msg SP
      in andThen (index ss 0) (\<lambda>s0.
         let cmd = Trim s0 [SP, TAB, CR, LF] in
         if cmd = RespHello then
           (if length ss < 2 \<or> State (Device c) \<noteq> StatePendingHello then Close c
            else andThen (index ss 1) (\<lambda>s1.
              Done (c\<lparr>Device := (Device c)\<lparr>Id' := s1, State := StatePendingOwner\<rparr>\<rparr>)))
         else if cmd = RespOwner then
           (if length ss < 2 \<or> State (Device c) \<noteq> StatePendingOwner then Close c
            else andThen (index ss 1) (\<lambda>s1.
              let c' = c\<lparr>Device := (Device c)\<lparr>Owner := s1, State := StateConnected\<rparr>\<rparr>
              in Done (c'\<lparr>hub := hub c' @ [Register]\<rparr>)))
         else if cmd = RespName then
           (if 2 \<le> length ss then
              andThen (index (SplitN msg SP 2) 1) (\<lambda>rest.
                Done (c\<lparr>Device := (Device c)\<lparr>Name := Trim rest [SP, TAB, LF]\<rparr>\<rparr>))
            else Done c)
         else if cmd = RespBye then Close c
         else Close c))"

text \<open>The command that \<^verbatim>\<open>processMessage\<close> finds in a message (\<^verbatim>\<open>cmd\<close> of the
  source), and the test under which its \<^verbatim>\<open>OWNER\<close> case does not close: the command is
  \<^verbatim>\<open>OWNER\<close>, there are two pieces at least, and the state is \<^verbatim>\<open>StatePendingOwner\<close>.\<close>

definition cmdOf :: "string \<Rightarrow> string" where
  "cmdOf message = Trim (hd (Split message SP)) [SP, TAB, CR, LF]"

definition ownerAccepted :: "string \<Rightarrow> Conn \<Rightarrow> bool" where
  "ownerAccepted message c =
     (cmdOf message = RespOwner \<and> \<not> (length (Split message SP) < 2 \<or>
        State (Device c) \<noteq> StatePendingOwner))"

subsection \<open>The inbound loop\<close>

text \<open>The pong handler reads the clock twice: \<open>t1\<close> for \<^verbatim>\<open>LastSeen\<close>, \<open>t2\<close> for the
  deadline.\<close>

definition pongHandler :: "int \<Rightarrow> int \<Rightarrow> Conn \<Rightarrow> Conn" where
  "pongHandler t1 t2 c =
     (let c' = c\<lparr>Device := (Device c)\<lparr>LastSeen := Unix t1\<rparr>\<rparr>
      in c'\<lparr>ws := SetReadDeadline (t2 + pongWait) (ws c')\<rparr>)"

text \<open>Line 100 of the loop body: the frame is stamped at the instant \<open>t\<close>.\<close>

definition touch :: "int \<Rightarrow> Conn \<Rightarrow> Conn" where
  "touch t c = c\<lparr>Device := (Device c)\<lparr>LastSeen := Unix t\<rparr>\<rparr>"

text \<open>The end of the loop body, under the mutex: the frame goes to \<^verbatim>\<open>Recv\<close> unless the
  connection is closed.\<close>

definition forward :: "string \<Rightarrow> Conn \<Rightarrow> Conn outcome" where
  "forward message c =
     (if \<not> closed c
      then andThen (chan_send (Recv c) message) (\<lambda>r. Done (c\<lparr>Recv := r\<rparr>))
      else Done c)"

text \<open>One pass of the loop body for a frame that \<^verbatim>\<open>ReadMessage\<close> returned.\<close>

definition readStep :: "int \<Rightarrow> string \<Rightarrow> Conn \<Rightarrow> Conn outcome" where
  "readStep t message c =
     andThen (processMessage message (touch t c)) (forward message)"

text \<open>What \<^verbatim>\<open>ReadMessage\<close> does next is up to the peer and the transport: it returns a
  frame, returns an error, or runs the pong handler on a pong and keeps reading.\<close>

datatype inbound = InFrame int string | InPong int int | InError

text \<open>The loop over the inbound events. The flag of the result tells whether the loop was
  left (\<^verbatim>\<open>break\<close>); with no event left the loop is still waiting in \<^verbatim>\<open>ReadMessage\<close>.\<close>

fun readLoop :: "inbound list \<Rightarrow> Conn \<Rightarrow> (bool \<times> Conn) outcome" where
  "readLoop [] c = Done (False, c)"
| "readLoop (InError # evs) c = Done (True, c)"
| "readLoop (InPong t1 t2 # evs) c = readLoop evs (pongHandler t1 t2 c)"
| "readLoop (InFrame t message # evs) c = andThen (readStep t message c) (readLoop evs)"

text \<open>\<^verbatim>\<open>readPump\<close>, entered at the instant \<open>t0\<close>: the limit and the first deadline are
  set, the loop runs, and the deferred \<^verbatim>\<open>Close\<close> runs once the loop is left.\<close>

definition enter :: "int \<Rightarrow> Conn \<Rightarrow> Conn" where
  "enter t0 c =
     (let c1 = c\<lparr>ws := SetReadLimit maxMessageSize (ws c)\<rparr>
      in c1\<lparr>ws := SetReadDeadline (t0 + pongWait) (ws c1)\<rparr>)"

definition readPump :: "int \<Rightarrow> inbound list \<Rightarrow> Conn \<Rightarrow> (bool \<times> Conn) outcome" where
  "readPump t0 evs c =
     andThen (readLoop evs (enter t0 c)) (\<lambda>(left, c').
       if left then andThen (Close c') (\<lambda>c''. Done (True, c''))
       else Done (False, c'))"

subsection \<open>Interleavings\<close>

text \<open>The goroutines that share a connection interleave at the grain of these atomic
  steps: a call of \<^verbatim>\<open>Close\<close> by any caller (the deferred calls of both pumps, the hub,
  the decoder), the entry of \<^verbatim>\<open>readPump\<close>, the pong handler, the three parts of the
  inbound loop body, and a consumer of \<^verbatim>\<open>Recv\<close> taking a frame. A schedule is a list
  of steps; a step that blocks makes the schedule infeasible, and a caller that waits for
  the mutex has not taken its step yet. Of \<^verbatim>\<open>writePump\<close> the schedules hold the deferred
  call of \<^verbatim>\<open>Close\<close>; what it writes to the socket and takes from \<^verbatim>\<open>Send\<close> changes
  no field that the other steps read.\<close>

datatype action =
    CallClose
  | Enter int
  | Pong int int
  | Touch int
  | Process string
  | Forward string
  | Take

fun exec :: "action \<Rightarrow> Conn \<Rightarrow> Conn outcome" where
  "exec CallClose c = Close c"
| "exec (Enter t0) c = Done (enter t0 c)"
| "exec (Pong t1 t2) c = Done (pongHandler t1 t2 c)"
| "exec (Touch t) c = Done (touch t c)"
| "exec (Process message) c = processMessage message c"
| "exec (Forward message) c = forward message c"
| "exec Take c = andThen (chan_recv (Recv c)) (\<lambda>r. Done (c\<lparr>Recv := r\<rparr>))"

fun run :: "action list \<Rightarrow> Conn \<Rightarrow> Conn outcome" where
  "run [] c = Done c"
| "run (a # as) c = andThen (exec a c) (run as)"

text \<open>The steps that the inbound loop takes on a list of inbound events.\<close>

fun schedule :: "inbound list \<Rightarrow> action list" where
  "schedule [] = []"
| "schedule (InError # evs) = []"
| "schedule (InPong t1 t2 # evs) = Pong t1 t2 # schedule evs"
| "schedule (InFrame t message # evs) =
     Touch t # Process message # Forward message # schedule evs"

text \<open>The number of steps of a schedule at which the \<^verbatim>\<open>OWNER\<close> case of the decoder
  accepts, counted along the run of the schedule.\<close>

fun accepts :: "action \<Rightarrow> Conn \<Rightarrow> bool" where
  "accepts (Process message) c = ownerAccepted message c"
| "accepts a c = False"

fun ownerSteps :: "action list \<Rightarrow> Conn \<Rightarrow> nat" where
  "ownerSteps [] c = 0"
| "ownerSteps (a # as) c =
     (if accepts a c then 1 else 0) +
     (case exec a c of Done c' \<Rightarrow> ownerSteps as c' | Panic \<Rightarrow> 0 | Blocked \<Rightarrow> 0)"

text \<open>What every reachable connection satisfies: both channels are closed exactly when
  the flag is set, the socket was closed once if the flag is set and never otherwise, the
  hub has one registration exactly when the state is \<^verbatim>\<open>StateConnected\<close> and nothing
  before, and an unregistration only after the close.\<close>

definition conn_ok :: "Conn \<Rightarrow> bool" where
  "conn_ok c =
     (chClosed (Send c) = closed c \<and>
      chClosed (Recv c) = closed c \<and>
      closeCalls (ws c) = (if closed c then 1 else 0) \<and>
      count_list (hub c) Register = (if State (Device c) = StateConnected then 1 else 0) \<and>
      (if State (Device c) = StateConnected then True else hub c = []) \<and>
      (if closed c then count_list (hub c) Unregister \<le> 1 else Unregister \<notin> set (hub c)))"

section \<open>Properties of the string functions\<close>


lemma Split_not_Nil: "Split s sep \<noteq> []"
  by (induction s) auto

lemma length_Split: "length (Split s sep) = Suc (count_list s sep)"
proof (induction s)
  case Nil
  show ?case by simp
next
  case (Cons x xs)
  have "length (tl (Split xs sep)) = count_list xs sep"
    using Cons by simp
  then show ?case using Cons by simp
qed

lemma hd_Split: "hd (Split s sep) = takeWhile (\<lambda>x. x \<noteq> sep) s"
  by (induction s) auto

lemma Split_two: "(2 \<le> length (Split s sep)) = (sep \<in> set s)"
  unfolding length_Split by (induction s) auto

lemma nth1_Split:
  "sep \<in> set s \<Longrightarrow> Split s sep ! 1 = takeWhile (\<lambda>x. x \<noteq> sep) (tl (dropWhile (\<lambda>x. x \<noteq> sep) s))"
proof (induction s)
  case Nil
  then show ?case by simp
next
  case (Cons x xs)
  show ?case
  proof (cases "x = sep")
    case True
    then show ?thesis by (simp add: hd_Split hd_conv_nth [symmetric] Split_not_Nil)
  next
    case False
    with Cons.prems have mem: "sep \<in> set xs" by simp
    then have "2 \<le> length (Split xs sep)" by (simp add: Split_two)
    then have "tl (Split xs sep) ! 0 = Split xs sep ! 1"
      by (cases "Split xs sep") auto
    with False Cons.IH [OF mem] show ?thesis by simp
  qed
qed

lemma index_Split_0: "index (Split s sep) 0 = Done (takeWhile (\<lambda>x. x \<noteq> sep) s)"
  using Split_not_Nil [of s sep] hd_Split [of s sep]
  by (cases "Split s sep") (auto simp: index_def)

lemma length_SplitN_2: "sep \<in> set s \<Longrightarrow> SplitN s sep 2 = [takeWhile (\<lambda>x. x \<noteq> sep) s, tl (dropWhile (\<lambda>x. x \<noteq> sep) s)]"
  by (simp add: numeral_2_eq_2)




lemma cmdOf_takeWhile: "cmdOf m = Trim (takeWhile (\<lambda>x. x \<noteq> SP) m) [SP, TAB, CR, LF]"
  by (simp add: cmdOf_def hd_Split)

lemma processMessage_unfold:
  "processMessage m c =
     (if cmdOf m = RespHello then
        (if SP \<notin> set m \<or> State (Device c) \<noteq> StatePendingHello then Close c
         else Done (c\<lparr>Device := (Device c)\<lparr>Id' := Split m SP ! 1, State := StatePendingOwner\<rparr>\<rparr>))
      else if cmdOf m = RespOwner then
        (if SP \<notin> set m \<or> State (Device c) \<noteq> StatePendingOwner then Close c
         else Done (c\<lparr>Device := (Device c)\<lparr>Owner := Split m SP ! 1, State := StateConnected\<rparr>,
                      hub := hub c @ [Register]\<rparr>))
      else if cmdOf m = RespName then
        (if SP \<in> set m
         then Done (c\<lparr>Device := (Device c)\<lparr>Name := Trim (tl (dropWhile (\<lambda>x. x \<noteq> SP) m)) [SP, TAB, LF]\<rparr>\<rparr>)
         else Done c)
      else Close c)"
proof -
  have l2: "(length (Split m SP) < 2) = (SP \<notin> set m)"
    using Split_two [of m SP] by linarith
  have l2': "(2 \<le> length (Split m SP)) = (SP \<in> set m)"
    by (rule Split_two)
  have i1: "SP \<in> set m \<Longrightarrow> index (Split m SP) (Suc 0) = Done (Split m SP ! 1)"
    using l2 by (simp add: index_def)
  have n1: "SP \<in> set m \<Longrightarrow>
      index (SplitN m SP 2) (Suc 0) = Done (tl (dropWhile (\<lambda>x. x \<noteq> SP) m))"
    by (simp add: length_SplitN_2 index_def)
  show ?thesis
    unfolding processMessage_def Let_def index_Split_0 l2 l2'
    by (simp add: andThen_def cmdOf_takeWhile i1 n1)
qed

lemma ownerAccepted_iff:
  "ownerAccepted m c = (cmdOf m = RespOwner \<and> SP \<in> set m \<and> State (Device c) = StatePendingOwner)"
  using Split_two [of m SP] by (auto simp: ownerAccepted_def)

lemma Resp_distinct:
  "RespHello \<noteq> RespOwner" "RespHello \<noteq> RespName" "RespHello \<noteq> RespBye"
  "RespOwner \<noteq> RespName" "RespOwner \<noteq> RespBye" "RespName \<noteq> RespBye"
  by (simp_all add: RespHello_def RespOwner_def RespName_def RespBye_def)

section \<open>Properties of the operations\<close>

lemma Close_closed: "closed c \<Longrightarrow> Close c = Done c"
  by (simp add: Close_def)

lemma Close_open:
  "\<not> closed c \<Longrightarrow> \<not> chClosed (Send c) \<Longrightarrow> \<not> chClosed (Recv c) \<Longrightarrow>
   Close c = Done (c\<lparr>closed := True, Send := (Send c)\<lparr>chClosed := True\<rparr>,
                    Recv := (Recv c)\<lparr>chClosed := True\<rparr>, ws := ws_Close (ws c),
                    hub := hub c @ (if State (Device c) = StateConnected then [Unregister] else [])\<rparr>)"
  by (simp add: Close_def chan_close_def andThen_def Let_def)

lemma Close_Done:
  "Close c = Done c' \<Longrightarrow>
     (closed c \<and> c' = c) \<or>
     (\<not> closed c \<and> \<not> chClosed (Send c) \<and> \<not> chClosed (Recv c) \<and>
      c' = c\<lparr>closed := True, Send := (Send c)\<lparr>chClosed := True\<rparr>,
              Recv := (Recv c)\<lparr>chClosed := True\<rparr>, ws := ws_Close (ws c),
              hub := hub c @ (if State (Device c) = StateConnected then [Unregister] else [])\<rparr>)"
  by (auto simp: Close_def chan_close_def andThen_def Let_def split: if_splits)

lemma Close_not_Blocked: "Close c \<noteq> Blocked"
  by (simp add: Close_def chan_close_def andThen_def Let_def)

lemma newConn_ok: "conn_ok newConn"
  by (simp add: conn_ok_def newConn_def make_chan_def)

lemma Close_ok:
  assumes "conn_ok c"
  shows "\<exists>c'. Close c = Done c' \<and> conn_ok c' \<and> closed c'"
proof (cases "closed c")
  case True
  with assms show ?thesis by (simp add: Close_closed)
next
  case False
  with assms have "\<not> chClosed (Send c)" "\<not> chClosed (Recv c)"
    by (simp_all add: conn_ok_def)
  from Close_open [OF False this] assms False show ?thesis
    by (simp add: conn_ok_def ws_Close_def)
qed

lemma processMessage_ok:
  assumes "conn_ok c"
  shows "\<exists>c'. processMessage m c = Done c' \<and> conn_ok c'"
proof -
  from Close_ok [OF assms] obtain c' where "Close c = Done c'" "conn_ok c'" by blast
  with assms show ?thesis
    unfolding processMessage_unfold by (auto simp: conn_ok_def)
qed

lemma forward_ok:
  assumes "conn_ok c" "forward m c = Done c'"
  shows "conn_ok c'"
  using assms
  by (auto simp: forward_def chan_send_def andThen_def conn_ok_def split: if_splits)

lemma forward_not_Panic: "conn_ok c \<Longrightarrow> forward m c \<noteq> Panic"
  by (auto simp: forward_def chan_send_def andThen_def conn_ok_def)

lemma exec_ok:
  assumes "conn_ok c" "exec a c = Done c'"
  shows "conn_ok c'"
proof (cases a)
  case CallClose
  with assms Close_ok [OF assms(1)] show ?thesis by auto
next
  case (Enter t0)
  with assms show ?thesis
    by (auto simp: conn_ok_def enter_def SetReadLimit_def SetReadDeadline_def Let_def)
next
  case (Pong t1 t2)
  with assms show ?thesis
    by (auto simp: conn_ok_def pongHandler_def SetReadDeadline_def Let_def)
next
  case (Touch t)
  with assms show ?thesis by (auto simp: conn_ok_def touch_def)
next
  case (Process m)
  with assms processMessage_ok [OF assms(1), of m] show ?thesis by auto
next
  case (Forward m)
  with assms forward_ok show ?thesis by auto
next
  case Take
  with assms show ?thesis
    by (auto simp: conn_ok_def chan_recv_def andThen_def split: list.splits if_splits)
qed

lemma exec_not_Panic:
  assumes "conn_ok c"
  shows "exec a c \<noteq> Panic"
proof (cases a)
  case CallClose
  with Close_ok [OF assms] show ?thesis by auto
next
  case (Process m)
  with processMessage_ok [OF assms, of m] show ?thesis by auto
next
  case (Forward m)
  with forward_not_Panic [OF assms] show ?thesis by auto
next
  case Take
  then show ?thesis by (auto simp: chan_recv_def andThen_def split: list.splits)
qed auto

lemma run_append:
  "run (as @ bs) c = andThen (run as c) (run bs)"
  by (induction as arbitrary: c) (auto simp: andThen_def split: outcome.splits)

lemma run_ok: "conn_ok c \<Longrightarrow> run acts c = Done c' \<Longrightarrow> conn_ok c'"
proof (induction acts arbitrary: c)
  case Nil
  then show ?case by simp
next
  case (Cons a acts)
  then show ?case
    by (auto simp: andThen_def split: outcome.splits dest: exec_ok)
qed

lemma run_not_Panic: "conn_ok c \<Longrightarrow> run acts c \<noteq> Panic"
proof (induction acts arbitrary: c)
  case Nil
  then show ?case by simp
next
  case (Cons a acts)
  then show ?case
    using exec_not_Panic [of c a]
    by (auto simp: andThen_def split: outcome.splits dest: exec_ok)
qed

lemma reachable_ok: "run pre newConn = Done c \<Longrightarrow> conn_ok c"
  using run_ok [OF newConn_ok] .

subsection \<open>The decoder on a command followed by one space\<close>

lemma cmdOf_HELLO: "cmdOf (''HELLO'' @ SP # arg) = ''HELLO''"
  by (simp add: cmdOf_takeWhile Trim_def SP_def TAB_def CR_def LF_def)

lemma cmdOf_OWNER: "cmdOf (''OWNER'' @ SP # arg) = ''OWNER''"
  by (simp add: cmdOf_takeWhile Trim_def SP_def TAB_def CR_def LF_def)

lemma cmdOf_NAME: "cmdOf (''NAME'' @ SP # arg) = ''NAME''"
  by (simp add: cmdOf_takeWhile Trim_def SP_def TAB_def CR_def LF_def)

lemma Split_word_SP:
  "SP \<notin> set w \<Longrightarrow> Split (w @ SP # arg) SP = w # Split arg SP"
  by (induction w) auto

lemma hello_arg:
  "processMessage (RespHello @ SP # arg) c =
     (if State (Device c) = StatePendingHello
      then Done (c\<lparr>Device := (Device c)\<lparr>Id' := takeWhile (\<lambda>x. x \<noteq> SP) arg,
                                         State := StatePendingOwner\<rparr>\<rparr>)
      else Close c)"
proof -
  have "SP \<notin> set RespHello" by (simp add: RespHello_def SP_def)
  then have "Split (RespHello @ SP # arg) SP ! 1 = takeWhile (\<lambda>x. x \<noteq> SP) arg"
    by (simp add: Split_word_SP hd_Split hd_conv_nth [symmetric] Split_not_Nil)
  moreover have "cmdOf (RespHello @ SP # arg) = RespHello"
    using cmdOf_HELLO [of arg] by (simp add: RespHello_def)
  ultimately show ?thesis by (simp add: processMessage_unfold)
qed

lemma owner_arg:
  "processMessage (RespOwner @ SP # arg) c =
     (if State (Device c) = StatePendingOwner
      then Done (c\<lparr>Device := (Device c)\<lparr>Owner := takeWhile (\<lambda>x. x \<noteq> SP) arg,
                                         State := StateConnected\<rparr>,
                   hub := hub c @ [Register]\<rparr>)
      else Close c)"
proof -
  have "SP \<notin> set RespOwner" by (simp add: RespOwner_def SP_def)
  then have "Split (RespOwner @ SP # arg) SP ! 1 = takeWhile (\<lambda>x. x \<noteq> SP) arg"
    by (simp add: Split_word_SP hd_Split hd_conv_nth [symmetric] Split_not_Nil)
  moreover have "cmdOf (RespOwner @ SP # arg) = RespOwner"
    using cmdOf_OWNER [of arg] by (simp add: RespOwner_def)
  ultimately show ?thesis
    using Resp_distinct Resp_distinct [symmetric] by (simp add: processMessage_unfold)
qed

lemma name_arg:
  "processMessage (RespName @ SP # arg) c =
     Done (c\<lparr>Device := (Device c)\<lparr>Name := Trim arg [SP, TAB, LF]\<rparr>\<rparr>)"
proof -
  have "SP \<notin> set RespName" by (simp add: RespName_def SP_def)
  then have "dropWhile (\<lambda>x. x \<noteq> SP) (RespName @ SP # arg) = SP # arg"
    by (auto simp: dropWhile_append3)
  moreover have "cmdOf (RespName @ SP # arg) = RespName"
    using cmdOf_NAME [of arg] by (simp add: RespName_def)
  ultimately show ?thesis
    using Resp_distinct Resp_distinct [symmetric] by (simp add: processMessage_unfold)
qed

lemma process_HELLO_d1:
  "processMessage ''HELLO d1'' c =
     (if State (Device c) = StatePendingHello
      then Done (c\<lparr>Device := (Device c)\<lparr>Id' := ''d1'', State := StatePendingOwner\<rparr>\<rparr>)
      else Close c)"
  using hello_arg [of "''d1''" c] by (simp add: RespHello_def SP_def)

lemma process_OWNER_o1:
  "processMessage ''OWNER o1'' c =
     (if State (Device c) = StatePendingOwner
      then Done (c\<lparr>Device := (Device c)\<lparr>Owner := ''o1'', State := StateConnected\<rparr>,
                   hub := hub c @ [Register]\<rparr>)
      else Close c)"
  using owner_arg [of "''o1''" c] by (simp add: RespOwner_def SP_def)

lemma process_NAME_kitchen_light:
  "processMessage ''NAME kitchen light'' c =
     Done (c\<lparr>Device := (Device c)\<lparr>Name := ''kitchen light''\<rparr>\<rparr>)"
  using name_arg [of "''kitchen light''" c]
  by (simp add: RespName_def SP_def TAB_def LF_def Trim_def)

subsection \<open>What the steps of a schedule preserve\<close>

lemma Close_Device: "Close c = Done c' \<Longrightarrow> Device c' = Device c"
  by (auto dest!: Close_Done)

lemma processMessage_State:
  assumes "processMessage m c = Done c'"
  shows "State (Device c') = State (Device c) \<or>
         (State (Device c) = StatePendingHello \<and> State (Device c') = StatePendingOwner) \<or>
         (State (Device c) = StatePendingOwner \<and> State (Device c') = StateConnected)"
  using assms unfolding processMessage_unfold
  by (auto split: if_splits dest: Close_Device)

lemma forward_Device: "forward m c = Done c' \<Longrightarrow> Device c' = Device c"
  by (auto simp: forward_def andThen_def split: if_splits outcome.splits)

lemma exec_State:
  assumes "exec a c = Done c'"
  shows "State (Device c') = State (Device c) \<or>
         (State (Device c) = StatePendingHello \<and> State (Device c') = StatePendingOwner) \<or>
         (State (Device c) = StatePendingOwner \<and> State (Device c') = StateConnected)"
proof (cases a)
  case CallClose
  with assms show ?thesis by (auto dest: Close_Device)
next
  case (Process m)
  with assms processMessage_State show ?thesis by auto
next
  case (Forward m)
  with assms show ?thesis by (auto dest: forward_Device)
next
  case Take
  with assms show ?thesis by (auto simp: andThen_def split: outcome.splits)
qed (use assms in \<open>auto simp: enter_def pongHandler_def touch_def Let_def\<close>)

lemma exec_State_int:
  "exec a c = Done c' \<Longrightarrow> State_int (State (Device c)) \<le> State_int (State (Device c'))"
  by (drule exec_State) auto

lemma run_State_int:
  "run acts c = Done c' \<Longrightarrow> State_int (State (Device c)) \<le> State_int (State (Device c'))"
proof (induction acts arbitrary: c)
  case Nil
  then show ?case by simp
next
  case (Cons a acts)
  from Cons.prems obtain d where d: "exec a c = Done d" "run acts d = Done c'"
    by (auto simp: andThen_def split: outcome.splits)
  from exec_State_int [OF d(1)] Cons.IH [OF d(2)] show ?case by simp
qed

lemma exec_Register:
  assumes "exec a c = Done c'"
  shows "count_list (hub c') Register = count_list (hub c) Register + (if accepts a c then 1 else 0)"
proof (cases a)
  case CallClose
  with assms show ?thesis by (auto dest!: Close_Done)
next
  case (Process m)
  from assms have pm: "processMessage m c = Done c'" by (simp add: Process)
  have "count_list (hub c') Register =
      count_list (hub c) Register + (if ownerAccepted m c then 1 else 0)"
    using pm Resp_distinct Resp_distinct [symmetric]
    unfolding ownerAccepted_iff processMessage_unfold
    by (auto split: if_splits dest!: Close_Done)
  then show ?thesis by (simp add: Process)
next
  case (Forward m)
  with assms show ?thesis
    by (auto simp: forward_def andThen_def split: if_splits outcome.splits)
next
  case Take
  with assms show ?thesis by (auto simp: andThen_def split: outcome.splits)
qed (use assms in \<open>auto simp: enter_def pongHandler_def touch_def Let_def\<close>)

lemma accepts_step:
  assumes "accepts a c" "exec a c = Done c'"
  shows "State (Device c) = StatePendingOwner \<and> State (Device c') = StateConnected \<and>
         hub c' = hub c @ [Register]"
proof -
  from assms(1) obtain m where a: "a = Process m" and acc: "ownerAccepted m c"
    by (cases a) auto
  from assms(2) have pm: "processMessage m c = Done c'" by (simp add: a)
  from acc pm Resp_distinct Resp_distinct [symmetric] show ?thesis
    unfolding ownerAccepted_iff processMessage_unfold
    by (auto split: if_splits)
qed

lemma run_Register:
  "run acts c = Done c' \<Longrightarrow>
   count_list (hub c') Register = count_list (hub c) Register + ownerSteps acts c"
proof (induction acts arbitrary: c)
  case Nil
  then show ?case by simp
next
  case (Cons a acts)
  from Cons.prems obtain d where d: "exec a c = Done d" "run acts d = Done c'"
    by (auto simp: andThen_def split: outcome.splits)
  from exec_Register [OF d(1)] Cons.IH [OF d(2)] d(1) show ?case by simp
qed

lemma exec_closed_stable:
  assumes "closed c" "exec a c = Done c'"
  shows "closed c' \<and> chClosed (Send c') = chClosed (Send c) \<and>
         chClosed (Recv c') = chClosed (Recv c) \<and>
         closeCalls (ws c') = closeCalls (ws c) \<and>
         count_list (hub c') Unregister = count_list (hub c) Unregister \<and>
         (\<exists>k. chBuf (Recv c') = drop k (chBuf (Recv c)))"
proof (cases a)
  case CallClose
  with assms have "c' = c" by (simp add: Close_closed)
  with assms(1) show ?thesis by (auto intro: exI [of _ 0])
next
  case (Enter t0)
  with assms show ?thesis
    by (auto simp: enter_def SetReadLimit_def SetReadDeadline_def Let_def intro: exI [of _ 0])
next
  case (Pong t1 t2)
  with assms show ?thesis
    by (auto simp: pongHandler_def SetReadDeadline_def Let_def intro: exI [of _ 0])
next
  case (Touch t)
  with assms show ?thesis by (auto simp: touch_def intro: exI [of _ 0])
next
  case (Process m)
  from assms have pm: "processMessage m c = Done c'" by (simp add: Process)
  from pm assms(1) have
    "closed c' \<and> Send c' = Send c \<and> Recv c' = Recv c \<and> ws c' = ws c \<and>
     count_list (hub c') Unregister = count_list (hub c) Unregister"
    unfolding processMessage_unfold by (auto simp: Close_closed split: if_splits)
  then show ?thesis by (auto intro: exI [of _ 0])
next
  case (Forward m)
  with assms have "c' = c" by (simp add: forward_def)
  with assms(1) show ?thesis by (auto intro: exI [of _ 0])
next
  case Take
  show ?thesis
  proof (cases "chBuf (Recv c)")
    case Nil
    with assms Take show ?thesis
      by (auto simp: chan_recv_def andThen_def split: if_splits)
  next
    case (Cons v vs)
    with assms Take have "closed c' \<and> Send c' = Send c \<and> ws c' = ws c \<and> hub c' = hub c \<and>
        chClosed (Recv c') = chClosed (Recv c) \<and> chBuf (Recv c') = drop 1 (chBuf (Recv c))"
      by (auto simp: chan_recv_def andThen_def)
    then show ?thesis by metis
  qed
qed

lemma run_closed_stable:
  "closed c \<Longrightarrow> run acts c = Done c' \<Longrightarrow>
     closed c' \<and> chClosed (Send c') = chClosed (Send c) \<and>
     chClosed (Recv c') = chClosed (Recv c) \<and>
     closeCalls (ws c') = closeCalls (ws c) \<and>
     count_list (hub c') Unregister = count_list (hub c) Unregister \<and>
     (\<exists>k. chBuf (Recv c') = drop k (chBuf (Recv c)))"
proof (induction acts arbitrary: c)
  case Nil
  then show ?case by (auto intro: exI [of _ 0])
next
  case (Cons a acts)
  from Cons.prems obtain d where d: "exec a c = Done d" "run acts d = Done c'"
    by (auto simp: andThen_def split: outcome.splits)
  from exec_closed_stable [OF Cons.prems(1) d(1)] obtain j where
    s1: "closed d" "chClosed (Send d) = chClosed (Send c)" "chClosed (Recv d) = chClosed (Recv c)"
      "closeCalls (ws d) = closeCalls (ws c)"
      "count_list (hub d) Unregister = count_list (hub c) Unregister"
      "chBuf (Recv d) = drop j (chBuf (Recv c))"
    by blast
  from Cons.IH [OF s1(1) d(2)] obtain k where
    s2: "closed c'" "chClosed (Send c') = chClosed (Send d)"
      "chClosed (Recv c') = chClosed (Recv d)" "closeCalls (ws c') = closeCalls (ws d)"
      "count_list (hub c') Unregister = count_list (hub d) Unregister"
      "chBuf (Recv c') = drop k (chBuf (Recv d))"
    by blast
  have "chBuf (Recv c') = drop (j + k) (chBuf (Recv c))"
    using s1(6) s2(6) by (simp add: add.commute)
  with s1 s2 show ?case by auto
qed


lemma process_BYE: "processMessage ''BYE'' c = Close c"
  by (simp add: processMessage_unfold cmdOf_takeWhile Trim_def SP_def TAB_def CR_def LF_def
      RespHello_def RespOwner_def RespName_def)



subsection \<open>The inbound loop as a schedule\<close>

text \<open>The loop takes the steps of \<^term>\<open>schedule\<close>, and \<^verbatim>\<open>readPump\<close> adds its entry before
  them and its deferred \<^verbatim>\<open>Close\<close> after them: what holds along every schedule holds for
  the inbound loop on every list of inbound events.\<close>

lemma readLoop_run:
  "readLoop evs c = andThen (run (schedule evs) c) (\<lambda>c'. Done (InError \<in> set evs, c'))"
proof (induction evs arbitrary: c)
  case Nil
  show ?case by (simp add: andThen_def)
next
  case (Cons e evs)
  show ?case
  proof (cases e)
    case (InFrame t m)
    show ?thesis
      by (simp add: InFrame Cons.IH readStep_def andThen_def split: outcome.splits)
  next
    case (InPong t1 t2)
    show ?thesis by (simp add: InPong Cons.IH andThen_def)
  next
    case InError
    show ?thesis by (simp add: InError andThen_def)
  qed
qed

lemma readPump_run:
  "readPump t0 evs c =
     andThen (run (Enter t0 # schedule evs @ (if InError \<in> set evs then [CallClose] else [])) c)
       (\<lambda>c'. Done (InError \<in> set evs, c'))"
  by (simp add: readPump_def readLoop_run run_append andThen_def split: outcome.splits)

subsection \<open>The read deadline and the argument-less messages\<close>

lemma processMessage_deadline:
  assumes "processMessage m c = Done c'"
  shows "readDeadline (ws c') = readDeadline (ws c) \<and>
         LastSeen (Device c') = LastSeen (Device c)"
  using assms unfolding processMessage_unfold
  by (auto simp: ws_Close_def split: if_splits dest!: Close_Done)

lemma forward_ws: "forward m c = Done c' \<Longrightarrow> ws c' = ws c"
  by (auto simp: forward_def andThen_def split: if_splits outcome.splits)

lemma readStep_deadline:
  assumes "readStep t m c = Done c'"
  shows "readDeadline (ws c') = readDeadline (ws c) \<and> LastSeen (Device c') = Unix t"
proof -
  from assms obtain d where d: "processMessage m (touch t c) = Done d" "forward m d = Done c'"
    by (auto simp: readStep_def andThen_def split: outcome.splits)
  from processMessage_deadline [OF d(1)] forward_ws [OF d(2)] forward_Device [OF d(2)]
  show ?thesis by (simp add: touch_def)
qed

lemma readLoop_deadline:
  "\<forall>u1 u2. InPong u1 u2 \<notin> set evs \<Longrightarrow> readLoop evs c = Done (left, c') \<Longrightarrow>
   readDeadline (ws c') = readDeadline (ws c)"
proof (induction evs arbitrary: c)
  case Nil
  then show ?case by simp
next
  case (Cons e evs)
  show ?case
  proof (cases e)
    case (InFrame t m)
    with Cons.prems obtain d where d: "readStep t m c = Done d" "readLoop evs d = Done (left, c')"
      by (auto simp: andThen_def split: outcome.splits)
    from Cons.prems(1) have "\<forall>u1 u2. InPong u1 u2 \<notin> set evs" by simp
    from Cons.IH [OF this d(2)] readStep_deadline [OF d(1)] show ?thesis by simp
  next
    case (InPong t1 t2)
    with Cons.prems(1) have False by auto
    then show ?thesis ..
  next
    case InError
    with Cons.prems(2) show ?thesis by simp
  qed
qed

lemma no_space_no_argument:
  assumes "SP \<notin> set m" "cmdOf m \<noteq> RespName"
  shows "processMessage m c = Close c"
  using assms by (simp add: processMessage_unfold)

section \<open>The claims\<close>

text \<open>
  Claim C5. A fresh connection whose inbound loop reads the frames \<^verbatim>\<open>HELLO d1\<close>,
  \<^verbatim>\<open>OWNER o1\<close> and \<^verbatim>\<open>NAME kitchen light\<close>, in this order and at any instants, ends
  with id \<^verbatim>\<open>d1\<close>, owner \<^verbatim>\<open>o1\<close>, name \<^verbatim>\<open>kitchen light\<close> and state
  \<^verbatim>\<open>StateConnected\<close>; it is not closed, and the hub has received one registration and
  nothing else. The registration is made while the \<^verbatim>\<open>OWNER\<close> frame is processed: the
  hub has received nothing after the first frame and the registration after the second.
\<close>

theorem handshake_example:
  "readPump t0 [InFrame t1 ''HELLO d1'', InFrame t2 ''OWNER o1'', InFrame t3 ''NAME kitchen light'']
     newConn =
   Done (False,
     \<lparr>hub = [Register],
      ws = \<lparr>readLimit = maxMessageSize, readDeadline = Some (t0 + pongWait), closeCalls = 0\<rparr>,
      Send = \<lparr>chClosed = False, chBuf = []\<rparr>,
      Recv = \<lparr>chClosed = False, chBuf = [''HELLO d1'', ''OWNER o1'', ''NAME kitchen light'']\<rparr>,
      Device = \<lparr>State = StateConnected, Id' = ''d1'', Owner = ''o1'', Name = ''kitchen light'',
                LastSeen = Unix t3\<rparr>,
      closed = False\<rparr>) \<and>
   readPump t0 [InFrame t1 ''HELLO d1'', InFrame t2 ''OWNER o1''] newConn =
   Done (False,
     \<lparr>hub = [Register],
      ws = \<lparr>readLimit = maxMessageSize, readDeadline = Some (t0 + pongWait), closeCalls = 0\<rparr>,
      Send = \<lparr>chClosed = False, chBuf = []\<rparr>,
      Recv = \<lparr>chClosed = False, chBuf = [''HELLO d1'', ''OWNER o1'']\<rparr>,
      Device = \<lparr>State = StateConnected, Id' = ''d1'', Owner = ''o1'', Name = [],
                LastSeen = Unix t2\<rparr>,
      closed = False\<rparr>) \<and>
   readPump t0 [InFrame t1 ''HELLO d1''] newConn =
   Done (False,
     \<lparr>hub = [],
      ws = \<lparr>readLimit = maxMessageSize, readDeadline = Some (t0 + pongWait), closeCalls = 0\<rparr>,
      Send = \<lparr>chClosed = False, chBuf = []\<rparr>,
      Recv = \<lparr>chClosed = False, chBuf = [''HELLO d1'']\<rparr>,
      Device = \<lparr>State = StatePendingOwner, Id' = ''d1'', Owner = [], Name = [],
                LastSeen = Unix t1\<rparr>,
      closed = False\<rparr>)"
  by (simp add: readPump_def enter_def readStep_def touch_def forward_def
      process_HELLO_d1 process_OWNER_o1 process_NAME_kitchen_light
      chan_send_def make_chan_def queueSize_def newConn_def andThen_def SetReadLimit_def
      SetReadDeadline_def)

text \<open>
  Claim C6. On a fresh connection the frame \<^verbatim>\<open>OWNER o1\<close> makes \<^verbatim>\<open>processMessage\<close>
  call \<^verbatim>\<open>Close\<close> at once: after the frame the connection is closed, both queues and
  the socket are closed, id and owner are still the empty string, the state is still
  \<^verbatim>\<open>StatePendingHello\<close>, and the hub has received nothing.
\<close>

theorem owner_before_hello_closes:
  "processMessage ''OWNER o1'' newConn = Close newConn \<and>
   readPump t0 [InFrame t1 ''OWNER o1''] newConn =
   Done (False,
     \<lparr>hub = [],
      ws = \<lparr>readLimit = maxMessageSize, readDeadline = Some (t0 + pongWait), closeCalls = 1\<rparr>,
      Send = \<lparr>chClosed = True, chBuf = []\<rparr>,
      Recv = \<lparr>chClosed = True, chBuf = []\<rparr>,
      Device = \<lparr>State = StatePendingHello, Id' = [], Owner = [], Name = [],
                LastSeen = Unix t1\<rparr>,
      closed = True\<rparr>)"
  by (simp add: readPump_def enter_def readStep_def touch_def forward_def
      process_OWNER_o1 Close_def chan_close_def
      make_chan_def newConn_def andThen_def SetReadLimit_def
      SetReadDeadline_def ws_Close_def)

text \<open>
  Claim C9. With the constants of the source the read-deadline window \<^verbatim>\<open>pongWait\<close> is
  60 seconds and the ping period is \<open>(pongWait * 7) div 10\<close>, which is 42 seconds: at
  most seven tenths of the window, and less than the window. Hence a ticker of this
  period, started no later than 18 seconds after a deadline was set at the instant \<open>t\<close>,
  ticks after \<open>t\<close> and no later than the deadline \<open>t + pongWait\<close>.
\<close>

theorem pingPeriod_within_pongWait:
  "pongWait = 60 * Second \<and> pingPeriod = 42 * Second \<and>
   10 * pingPeriod \<le> 7 * pongWait \<and> pingPeriod < pongWait \<and>
   (\<forall>s t. s \<le> t + (pongWait - pingPeriod) \<longrightarrow>
      (\<exists>k. 1 \<le> k \<and> t < tickTime s k \<and> tickTime s k \<le> t + pongWait))"
proof -
  have pw: "pongWait = 60000000000" by (simp add: pongWait_def Second_def)
  have pp: "pingPeriod = 42000000000" by (simp add: pingPeriod_def pw)
  have tick: "\<exists>k. 1 \<le> k \<and> t < tickTime s k \<and> tickTime s k \<le> t + pongWait"
    if le: "s \<le> t + (pongWait - pingPeriod)" for s t
  proof (cases "s \<le> t")
    case True
    define q where "q = (t - s) div 42000000000"
    have q0: "0 \<le> q" using True by (simp add: q_def)
    have lo: "q * 42000000000 \<le> t - s" unfolding q_def by (simp add: mult.commute)
    have hi: "t - s < (q + 1) * 42000000000"
      unfolding q_def
      using div_mult_mod_eq [of "t - s" 42000000000] pos_mod_bound [of 42000000000 "t - s"]
      by (simp add: algebra_simps)
    have "1 \<le> nat q + 1" by simp
    moreover have "t < tickTime s (nat q + 1)"
      using hi q0 by (simp add: tickTime_def pp algebra_simps)
    moreover have "tickTime s (nat q + 1) \<le> t + pongWait"
      using lo q0 by (simp add: tickTime_def pp pw algebra_simps)
    ultimately show ?thesis by blast
  next
    case False
    with le have "t < tickTime s 1" "tickTime s 1 \<le> t + pongWait"
      by (simp_all add: tickTime_def pp pw)
    then show ?thesis by blast
  qed
  show ?thesis using tick by (simp add: pw pp Second_def)
qed

theorem pingPeriod_within_pongWait_witness:
  "(0::int) \<le> 0 + (pongWait - pingPeriod) \<and>
   (\<exists>k. 1 \<le> k \<and> 0 < tickTime 0 k \<and> tickTime 0 k \<le> 0 + pongWait)"
proof -
  have h: "(0::int) \<le> 0 + (pongWait - pingPeriod)"
    by (simp add: pongWait_def pingPeriod_def Second_def)
  from pingPeriod_within_pongWait have
    "\<forall>s t. s \<le> t + (pongWait - pingPeriod) \<longrightarrow>
      (\<exists>k. 1 \<le> k \<and> t < tickTime s k \<and> tickTime s k \<le> t + pongWait)"
    by blast
  with h show ?thesis by blast
qed

text \<open>
  Claim C10. The frame \<^verbatim>\<open>HELLO\<close> followed by one space and nothing else splits into
  the two pieces \<^verbatim>\<open>HELLO\<close> and the empty string, so the test on the number of pieces
  passes: in state \<^verbatim>\<open>StatePendingHello\<close> the decoder does not close the connection but
  sets the id to the empty string and the state to \<^verbatim>\<open>StatePendingOwner\<close>, and changes
  nothing else.
\<close>

theorem hello_trailing_space:
  assumes "State (Device c) = StatePendingHello"
  shows "Split ''HELLO '' SP = [''HELLO'', []] \<and>
         \<not> length (Split ''HELLO '' SP) < 2 \<and>
         processMessage ''HELLO '' c =
           Done (c\<lparr>Device := (Device c)\<lparr>Id' := [], State := StatePendingOwner\<rparr>\<rparr>)"
  using assms
  by (simp add: processMessage_def index_def andThen_def Trim_def SP_def TAB_def CR_def LF_def
      RespHello_def)

theorem hello_trailing_space_witness:
  "State (Device newConn) = StatePendingHello \<and>
   processMessage ''HELLO '' newConn =
     Done (newConn\<lparr>Device := (Device newConn)\<lparr>Id' := [], State := StatePendingOwner\<rparr>\<rparr>) \<and>
   \<not> closed (newConn\<lparr>Device := (Device newConn)\<lparr>Id' := [], State := StatePendingOwner\<rparr>\<rparr>)"
proof -
  have h: "State (Device newConn) = StatePendingHello" by (simp add: newConn_def)
  from hello_trailing_space [OF h] h show ?thesis by (simp add: newConn_def)
qed




text \<open>
  Claim C2. Along every schedule run from a fresh connection the hub receives as many
  registrations as there were steps at which the \<^verbatim>\<open>OWNER\<close> case of the decoder
  accepted (command \<^verbatim>\<open>OWNER\<close>, an argument, state \<^verbatim>\<open>StatePendingOwner\<close>), and there
  is at most one such step. A step registers exactly when it is such a step; it then moves
  the state from \<^verbatim>\<open>StatePendingOwner\<close> to \<^verbatim>\<open>StateConnected\<close>, and the hub had
  received nothing before. A connection with no such step has sent the hub nothing,
  neither a registration nor an unregistration.
\<close>

theorem register_once_at_owner_transition:
  assumes "run acts newConn = Done c"
  shows "count_list (hub c) Register = ownerSteps acts newConn \<and>
         ownerSteps acts newConn \<le> 1 \<and>
         (ownerSteps acts newConn = 0 \<longrightarrow> hub c = []) \<and>
         (\<forall>a c'. exec a c = Done c' \<longrightarrow>
            (if accepts a c
             then State (Device c) = StatePendingOwner \<and> State (Device c') = StateConnected \<and>
                  hub c = [] \<and> hub c' = [Register]
             else count_list (hub c') Register = count_list (hub c) Register))"
proof -
  have ok: "conn_ok c" using assms by (rule reachable_ok)
  have cnt: "count_list (hub c) Register = ownerSteps acts newConn"
    using run_Register [OF assms] by (simp add: newConn_def)
  have le: "count_list (hub c) Register \<le> 1"
    using ok by (simp add: conn_ok_def)
  have none: "hub c = []" if "count_list (hub c) Register = 0"
    using ok that by (simp add: conn_ok_def split: if_splits)
  have step: "State (Device c) = StatePendingOwner \<and> State (Device c') = StateConnected \<and>
      hub c = [] \<and> hub c' = [Register]"
    if "accepts a c" "exec a c = Done c'" for a c'
  proof -
    from accepts_step [OF that] have s: "State (Device c) = StatePendingOwner"
      "State (Device c') = StateConnected" "hub c' = hub c @ [Register]" by simp_all
    from ok s(1) have "hub c = []" by (simp add: conn_ok_def)
    with s show ?thesis by simp
  qed
  have other: "count_list (hub c') Register = count_list (hub c) Register"
    if "\<not> accepts a c" "exec a c = Done c'" for a c'
    using exec_Register [OF that(2)] that(1) by simp
  from cnt le none step other show ?thesis by auto
qed

theorem register_once_at_owner_transition_witness:
  "run [Process ''HELLO d1'', Process ''OWNER o1''] newConn =
     Done (newConn\<lparr>Device := \<lparr>State = StateConnected, Id' = ''d1'', Owner = ''o1'', Name = [],
                                LastSeen = 0\<rparr>, hub := [Register]\<rparr>) \<and>
   count_list (hub (newConn\<lparr>Device := \<lparr>State = StateConnected, Id' = ''d1'', Owner = ''o1'',
                                Name = [], LastSeen = 0\<rparr>, hub := [Register]\<rparr>)) Register =
     ownerSteps [Process ''HELLO d1'', Process ''OWNER o1''] newConn \<and>
   ownerSteps [Process ''HELLO d1'', Process ''OWNER o1''] newConn \<le> 1"
proof -
  have h: "run [Process ''HELLO d1'', Process ''OWNER o1''] newConn =
     Done (newConn\<lparr>Device := \<lparr>State = StateConnected, Id' = ''d1'', Owner = ''o1'', Name = [],
                                LastSeen = 0\<rparr>, hub := [Register]\<rparr>)"
    by (simp add: process_HELLO_d1 process_OWNER_o1 andThen_def newConn_def)
  from register_once_at_owner_transition [OF h] h show ?thesis by blast
qed

text \<open>
  Claim C3. The handshake state only moves forward. Along every schedule of steps of a
  connection, from any connection at all, the state at the end is not earlier in the order
  \<^verbatim>\<open>StatePendingHello\<close>, \<^verbatim>\<open>StatePendingOwner\<close>, \<^verbatim>\<open>StateConnected\<close> than the state at
  the start; and one call of \<^verbatim>\<open>processMessage\<close> that returns leaves the state as it
  was or moves it one place forward.
\<close>

theorem state_only_advances:
  assumes "run acts c = Done c'"
  shows "State_int (State (Device c)) \<le> State_int (State (Device c')) \<and>
         (\<forall>m d. processMessage m c = Done d \<longrightarrow>
            State (Device d) = State (Device c) \<or>
            (State (Device c) = StatePendingHello \<and> State (Device d) = StatePendingOwner) \<or>
            (State (Device c) = StatePendingOwner \<and> State (Device d) = StateConnected))"
  using run_State_int [OF assms] processMessage_State by blast

theorem state_only_advances_witness:
  "run [Process ''HELLO d1''] newConn =
     Done (newConn\<lparr>Device := (Device newConn)\<lparr>Id' := ''d1'', State := StatePendingOwner\<rparr>\<rparr>) \<and>
   State_int (State (Device newConn)) \<le>
     State_int (State (Device
       (newConn\<lparr>Device := (Device newConn)\<lparr>Id' := ''d1'', State := StatePendingOwner\<rparr>\<rparr>)))"
proof -
  have h: "run [Process ''HELLO d1''] newConn =
     Done (newConn\<lparr>Device := (Device newConn)\<lparr>Id' := ''d1'', State := StatePendingOwner\<rparr>\<rparr>)"
    by (simp add: process_HELLO_d1 andThen_def newConn_def)
  from state_only_advances [OF h] h show ?thesis by blast
qed

text \<open>
  Claim C7. The end of the inbound loop body tests the flag and enqueues in one step under
  the mutex. On a reachable connection it never sends on a closed queue: if the connection
  is closed the frame is dropped and the connection is unchanged, and from then on no
  schedule of steps adds a frame to \<^verbatim>\<open>Recv\<close> (its buffer can only be drained by
  consumers); if the connection is open the queue is open, and the frame is appended when
  there is room.
\<close>

theorem forward_guarded_by_closed:
  assumes "run pre newConn = Done c"
  shows "forward m c \<noteq> Panic \<and>
         (\<forall>acts. run acts c \<noteq> Panic) \<and>
         (closed c \<longrightarrow>
            chClosed (Recv c) \<and> forward m c = Done c \<and>
            (\<forall>acts c'. run acts c = Done c' \<longrightarrow>
               closed c' \<and> (\<exists>k. chBuf (Recv c') = drop k (chBuf (Recv c))))) \<and>
         (\<not> closed c \<and> length (chBuf (Recv c)) < queueSize \<longrightarrow>
            \<not> chClosed (Recv c) \<and>
            forward m c = Done (c\<lparr>Recv := (Recv c)\<lparr>chBuf := chBuf (Recv c) @ [m]\<rparr>\<rparr>))"
proof -
  have ok: "conn_ok c" using assms by (rule reachable_ok)
  have a: "forward m c \<noteq> Panic" using ok by (rule forward_not_Panic)
  have b: "run acts c \<noteq> Panic" for acts using ok by (rule run_not_Panic)
  have c: "chClosed (Recv c) \<and> forward m c = Done c" if "closed c"
    using ok that by (simp add: conn_ok_def forward_def)
  have d: "closed c' \<and> (\<exists>k. chBuf (Recv c') = drop k (chBuf (Recv c)))"
    if "closed c" "run acts c = Done c'" for acts c'
    using run_closed_stable [OF that] by blast
  have e: "\<not> chClosed (Recv c) \<and>
      forward m c = Done (c\<lparr>Recv := (Recv c)\<lparr>chBuf := chBuf (Recv c) @ [m]\<rparr>\<rparr>)"
    if "\<not> closed c" "length (chBuf (Recv c)) < queueSize"
    using ok that by (simp add: conn_ok_def forward_def chan_send_def andThen_def)
  from a b c d e show ?thesis by blast
qed

theorem forward_guarded_by_closed_witness:
  "run [Process ''BYE''] newConn =
     Done (newConn\<lparr>closed := True, Send := \<lparr>chClosed = True, chBuf = []\<rparr>,
                    Recv := \<lparr>chClosed = True, chBuf = []\<rparr>,
                    ws := \<lparr>readLimit = 0, readDeadline = None, closeCalls = 1\<rparr>\<rparr>) \<and>
   closed (newConn\<lparr>closed := True, Send := \<lparr>chClosed = True, chBuf = []\<rparr>,
                    Recv := \<lparr>chClosed = True, chBuf = []\<rparr>,
                    ws := \<lparr>readLimit = 0, readDeadline = None, closeCalls = 1\<rparr>\<rparr>) \<and>
   forward ''BYE'' (newConn\<lparr>closed := True, Send := \<lparr>chClosed = True, chBuf = []\<rparr>,
                    Recv := \<lparr>chClosed = True, chBuf = []\<rparr>,
                    ws := \<lparr>readLimit = 0, readDeadline = None, closeCalls = 1\<rparr>\<rparr>) =
     Done (newConn\<lparr>closed := True, Send := \<lparr>chClosed = True, chBuf = []\<rparr>,
                    Recv := \<lparr>chClosed = True, chBuf = []\<rparr>,
                    ws := \<lparr>readLimit = 0, readDeadline = None, closeCalls = 1\<rparr>\<rparr>)"
proof -
  have h: "run [Process ''BYE''] newConn =
     Done (newConn\<lparr>closed := True, Send := \<lparr>chClosed = True, chBuf = []\<rparr>,
                    Recv := \<lparr>chClosed = True, chBuf = []\<rparr>,
                    ws := \<lparr>readLimit = 0, readDeadline = None, closeCalls = 1\<rparr>\<rparr>)"
    by (simp add: process_BYE Close_def chan_close_def ws_Close_def make_chan_def andThen_def
        newConn_def)
  have cl: "closed (newConn\<lparr>closed := True, Send := \<lparr>chClosed = True, chBuf = []\<rparr>,
                    Recv := \<lparr>chClosed = True, chBuf = []\<rparr>,
                    ws := \<lparr>readLimit = 0, readDeadline = None, closeCalls = 1\<rparr>\<rparr>)"
    by simp
  from forward_guarded_by_closed [OF h, of "''BYE''"] cl h show ?thesis by blast
qed

text \<open>
  Claim C4, as the source has it. The read deadline is set on entry of \<^verbatim>\<open>readPump\<close> and
  by the pong handler, nowhere else. A pong sets it to the instant of the pong plus
  \<^verbatim>\<open>pongWait\<close>, and stamps \<^verbatim>\<open>LastSeen\<close>. An ordinary frame stamps \<^verbatim>\<open>LastSeen\<close>
  and leaves the deadline as it was, whatever the frame holds; so does any list of inbound
  events without a pong.
\<close>

theorem deadline_extended_by_pong_only:
  "readDeadline (ws (pongHandler t1 t2 c)) = Some (t2 + pongWait) \<and>
   LastSeen (Device (pongHandler t1 t2 c)) = Unix t1 \<and>
   (\<forall>c'. readStep t m c = Done c' \<longrightarrow>
      readDeadline (ws c') = readDeadline (ws c) \<and> LastSeen (Device c') = Unix t) \<and>
   (\<forall>left c'. (\<forall>u1 u2. InPong u1 u2 \<notin> set evs) \<longrightarrow> readLoop evs c = Done (left, c') \<longrightarrow>
      readDeadline (ws c') = readDeadline (ws c))"
proof -
  have "readDeadline (ws (pongHandler t1 t2 c)) = Some (t2 + pongWait)"
    "LastSeen (Device (pongHandler t1 t2 c)) = Unix t1"
    by (simp_all add: pongHandler_def SetReadDeadline_def Let_def)
  with readStep_deadline readLoop_deadline show ?thesis by blast
qed

theorem deadline_extended_by_pong_only_witness:
  "readStep (50 * Second) ''HELLO d1'' (enter 0 newConn) =
     Done ((enter 0 newConn)\<lparr>Device := \<lparr>State = StatePendingOwner, Id' = ''d1'', Owner = [],
                                          Name = [], LastSeen = 50\<rparr>,
                              Recv := \<lparr>chClosed = False, chBuf = [''HELLO d1'']\<rparr>\<rparr>) \<and>
   readDeadline (ws ((enter 0 newConn)\<lparr>Device := \<lparr>State = StatePendingOwner, Id' = ''d1'',
                                          Owner = [], Name = [], LastSeen = 50\<rparr>,
                              Recv := \<lparr>chClosed = False, chBuf = [''HELLO d1'']\<rparr>\<rparr>)) =
     readDeadline (ws (enter 0 newConn)) \<and>
   readDeadline (ws (enter 0 newConn)) = Some pongWait"
proof -
  have h: "readStep (50 * Second) ''HELLO d1'' (enter 0 newConn) =
     Done ((enter 0 newConn)\<lparr>Device := \<lparr>State = StatePendingOwner, Id' = ''d1'', Owner = [],
                                          Name = [], LastSeen = 50\<rparr>,
                              Recv := \<lparr>chClosed = False, chBuf = [''HELLO d1'']\<rparr>\<rparr>)"
    by (simp add: enter_def readStep_def touch_def forward_def
      process_HELLO_d1 chan_send_def make_chan_def queueSize_def newConn_def andThen_def
      SetReadLimit_def SetReadDeadline_def Second_def Unix_def)
  have d: "readDeadline (ws (enter 0 newConn)) = Some pongWait"
    by (simp add: enter_def SetReadDeadline_def SetReadLimit_def)
  from deadline_extended_by_pong_only [of _ _ "enter 0 newConn" "50 * Second" "''HELLO d1''"] h d
  show ?thesis by blast
qed

text \<open>
  The claim as stated fails: \<^verbatim>\<open>readPump\<close> entered at instant 0 reads a frame at 50
  seconds; the deadline is still at 60 seconds, not at \<open>50 + 60\<close>.
\<close>

theorem frame_keeps_deadline_counterexample:
  "readPump 0 [InFrame (50 * Second) ''HELLO d1''] newConn =
   Done (False,
     \<lparr>hub = [],
      ws = \<lparr>readLimit = 512, readDeadline = Some (60 * Second), closeCalls = 0\<rparr>,
      Send = \<lparr>chClosed = False, chBuf = []\<rparr>,
      Recv = \<lparr>chClosed = False, chBuf = [''HELLO d1'']\<rparr>,
      Device = \<lparr>State = StatePendingOwner, Id' = ''d1'', Owner = [], Name = [], LastSeen = 50\<rparr>,
      closed = False\<rparr>) \<and>
   Some (60 * Second) \<noteq> Some (50 * Second + pongWait)"
  by (simp add: readPump_def enter_def readStep_def touch_def forward_def
      process_HELLO_d1 chan_send_def make_chan_def queueSize_def newConn_def andThen_def
      SetReadLimit_def SetReadDeadline_def maxMessageSize_def pongWait_def Second_def Unix_def)

text \<open>
  Claim C8, as the source has it. The decoder cuts a message at every single space, not
  at runs of white space: there is one piece more than there are spaces. For every message
  the decoder does this and nothing else: the command is the text before the first space
  with tabs, carriage returns and line feeds trimmed from its ends; for \<^verbatim>\<open>HELLO\<close> and
  \<^verbatim>\<open>OWNER\<close> the argument is the text between the first and the second space (empty if
  a second space follows at once), taken if the message has a space and the state is the
  expected one, and the connection is closed otherwise; for \<^verbatim>\<open>NAME\<close> the argument is
  the whole rest after the first space with spaces, tabs and line feeds trimmed from its
  ends, and a \<^verbatim>\<open>NAME\<close> without a space changes nothing; every other command closes.
  So a message without a space has no argument, whatever other white space it holds:
  unless its command is \<^verbatim>\<open>NAME\<close>, the decoder closes the connection.
\<close>

theorem decoder_splits_at_single_spaces:
  "processMessage m c =
     (if Trim (takeWhile (\<lambda>x. x \<noteq> SP) m) [SP, TAB, CR, LF] = RespHello then
        (if SP \<in> set m \<and> State (Device c) = StatePendingHello
         then Done (c\<lparr>Device := (Device c)
                \<lparr>Id' := takeWhile (\<lambda>x. x \<noteq> SP) (tl (dropWhile (\<lambda>x. x \<noteq> SP) m)),
                 State := StatePendingOwner\<rparr>\<rparr>)
         else Close c)
      else if Trim (takeWhile (\<lambda>x. x \<noteq> SP) m) [SP, TAB, CR, LF] = RespOwner then
        (if SP \<in> set m \<and> State (Device c) = StatePendingOwner
         then Done (c\<lparr>Device := (Device c)
                \<lparr>Owner := takeWhile (\<lambda>x. x \<noteq> SP) (tl (dropWhile (\<lambda>x. x \<noteq> SP) m)),
                 State := StateConnected\<rparr>,
                hub := hub c @ [Register]\<rparr>)
         else Close c)
      else if Trim (takeWhile (\<lambda>x. x \<noteq> SP) m) [SP, TAB, CR, LF] = RespName then
        (if SP \<in> set m
         then Done (c\<lparr>Device := (Device c)
                \<lparr>Name := Trim (tl (dropWhile (\<lambda>x. x \<noteq> SP) m)) [SP, TAB, LF]\<rparr>\<rparr>)
         else Done c)
      else Close c) \<and>
   length (Split m SP) = Suc (count_list m SP) \<and>
   cmdOf m = Trim (takeWhile (\<lambda>x. x \<noteq> SP) m) [SP, TAB, CR, LF] \<and>
   processMessage (RespHello @ SP # arg) c =
     (if State (Device c) = StatePendingHello
      then Done (c\<lparr>Device := (Device c)\<lparr>Id' := takeWhile (\<lambda>x. x \<noteq> SP) arg,
                                         State := StatePendingOwner\<rparr>\<rparr>)
      else Close c) \<and>
   processMessage (RespOwner @ SP # arg) c =
     (if State (Device c) = StatePendingOwner
      then Done (c\<lparr>Device := (Device c)\<lparr>Owner := takeWhile (\<lambda>x. x \<noteq> SP) arg,
                                         State := StateConnected\<rparr>,
                   hub := hub c @ [Register]\<rparr>)
      else Close c) \<and>
   processMessage (RespName @ SP # arg) c =
     Done (c\<lparr>Device := (Device c)\<lparr>Name := Trim arg [SP, TAB, LF]\<rparr>\<rparr>) \<and>
   (SP \<notin> set m \<and> cmdOf m \<noteq> RespName \<longrightarrow> processMessage m c = Close c)"
proof -
  have full: "processMessage m c =
     (if Trim (takeWhile (\<lambda>x. x \<noteq> SP) m) [SP, TAB, CR, LF] = RespHello then
        (if SP \<in> set m \<and> State (Device c) = StatePendingHello
         then Done (c\<lparr>Device := (Device c)
                \<lparr>Id' := takeWhile (\<lambda>x. x \<noteq> SP) (tl (dropWhile (\<lambda>x. x \<noteq> SP) m)),
                 State := StatePendingOwner\<rparr>\<rparr>)
         else Close c)
      else if Trim (takeWhile (\<lambda>x. x \<noteq> SP) m) [SP, TAB, CR, LF] = RespOwner then
        (if SP \<in> set m \<and> State (Device c) = StatePendingOwner
         then Done (c\<lparr>Device := (Device c)
                \<lparr>Owner := takeWhile (\<lambda>x. x \<noteq> SP) (tl (dropWhile (\<lambda>x. x \<noteq> SP) m)),
                 State := StateConnected\<rparr>,
                hub := hub c @ [Register]\<rparr>)
         else Close c)
      else if Trim (takeWhile (\<lambda>x. x \<noteq> SP) m) [SP, TAB, CR, LF] = RespName then
        (if SP \<in> set m
         then Done (c\<lparr>Device := (Device c)
                \<lparr>Name := Trim (tl (dropWhile (\<lambda>x. x \<noteq> SP) m)) [SP, TAB, LF]\<rparr>\<rparr>)
         else Done c)
      else Close c)"
  proof -
    have n1: "Split m SP ! Suc 0 = takeWhile (\<lambda>x. x \<noteq> SP) (tl (dropWhile (\<lambda>x. x \<noteq> SP) m))"
      if "SP \<in> set m"
      using nth1_Split [OF that] by simp
    show ?thesis
      unfolding processMessage_unfold cmdOf_takeWhile
      by (auto simp: n1)
  qed
  from full length_Split [of m SP] cmdOf_takeWhile [of m] hello_arg [of arg c] owner_arg [of arg c]
    name_arg [of arg c] no_space_no_argument [of m c]
  show ?thesis by blast
qed

theorem decoder_splits_at_single_spaces_witness:
  "SP \<notin> set (''HELLO'' @ [TAB] @ ''d1'') \<and>
   cmdOf (''HELLO'' @ [TAB] @ ''d1'') \<noteq> RespName \<and>
   processMessage (''HELLO'' @ [TAB] @ ''d1'') newConn = Close newConn \<and>
   processMessage ([TAB] @ ''HELLO'' @ [CR, LF] @ '' d1 x'') newConn =
     Done (newConn\<lparr>Device := (Device newConn)\<lparr>Id' := ''d1'', State := StatePendingOwner\<rparr>\<rparr>)"
proof -
  have h1: "SP \<notin> set (''HELLO'' @ [TAB] @ ''d1'')"
    by (simp add: SP_def TAB_def)
  have h2: "cmdOf (''HELLO'' @ [TAB] @ ''d1'') \<noteq> RespName"
    by (simp add: cmdOf_takeWhile Trim_def SP_def TAB_def CR_def LF_def RespName_def)
  from decoder_splits_at_single_spaces [of "''HELLO'' @ [TAB] @ ''d1''" newConn] h1 h2
  have a: "processMessage (''HELLO'' @ [TAB] @ ''d1'') newConn = Close newConn"
    by blast
  from decoder_splits_at_single_spaces [of "[TAB] @ ''HELLO'' @ [CR, LF] @ '' d1 x''" newConn]
  have b: "processMessage ([TAB] @ ''HELLO'' @ [CR, LF] @ '' d1 x'') newConn =
     Done (newConn\<lparr>Device := (Device newConn)\<lparr>Id' := ''d1'', State := StatePendingOwner\<rparr>\<rparr>)"
    by (simp add: Trim_def SP_def TAB_def CR_def LF_def RespHello_def newConn_def)
  from h1 h2 a b show ?thesis by blast
qed

text \<open>
  The claim as stated fails: with one space \<^verbatim>\<open>HELLO d1\<close> sets the id \<^verbatim>\<open>d1\<close>; with a
  tab in place of the space the connection is closed; with two spaces the id is the empty
  string.
\<close>

theorem whitespace_run_counterexample:
  "processMessage ''HELLO d1'' newConn =
     Done (newConn\<lparr>Device := (Device newConn)\<lparr>Id' := ''d1'', State := StatePendingOwner\<rparr>\<rparr>) \<and>
   processMessage (''HELLO'' @ [TAB] @ ''d1'') newConn =
     Done (newConn\<lparr>closed := True, Send := \<lparr>chClosed = True, chBuf = []\<rparr>,
                    Recv := \<lparr>chClosed = True, chBuf = []\<rparr>,
                    ws := \<lparr>readLimit = 0, readDeadline = None, closeCalls = 1\<rparr>\<rparr>) \<and>
   processMessage ''HELLO  d1'' newConn =
     Done (newConn\<lparr>Device := (Device newConn)\<lparr>Id' := [], State := StatePendingOwner\<rparr>\<rparr>)"
proof -
  have a: "processMessage ''HELLO d1'' newConn =
     Done (newConn\<lparr>Device := (Device newConn)\<lparr>Id' := ''d1'', State := StatePendingOwner\<rparr>\<rparr>)"
    by (simp add: process_HELLO_d1 newConn_def)
  have "SP \<notin> set (''HELLO'' @ [TAB] @ ''d1'')"
    "cmdOf (''HELLO'' @ [TAB] @ ''d1'') \<noteq> RespName"
    by (simp_all add: cmdOf_takeWhile Trim_def SP_def TAB_def CR_def LF_def RespName_def)
  then have "processMessage (''HELLO'' @ [TAB] @ ''d1'') newConn = Close newConn"
    by (rule no_space_no_argument)
  then have b: "processMessage (''HELLO'' @ [TAB] @ ''d1'') newConn =
     Done (newConn\<lparr>closed := True, Send := \<lparr>chClosed = True, chBuf = []\<rparr>,
                    Recv := \<lparr>chClosed = True, chBuf = []\<rparr>,
                    ws := \<lparr>readLimit = 0, readDeadline = None, closeCalls = 1\<rparr>\<rparr>)"
    by (simp add: Close_def chan_close_def ws_Close_def make_chan_def andThen_def newConn_def)
  have c: "processMessage ''HELLO  d1'' newConn =
     Done (newConn\<lparr>Device := (Device newConn)\<lparr>Id' := [], State := StatePendingOwner\<rparr>\<rparr>)"
    using hello_arg [of "'' d1''" newConn] by (simp add: RespHello_def SP_def newConn_def)
  from a b c show ?thesis by blast
qed

end
